theory Spec2Isabelle
  imports Main "HOL-Library.Sublist"
begin

section \<open>Values, exceptions and printed output\<close>

text \<open>
  A shallow embedding of \<^verbatim>\<open>reverse_search.py\<close>. Python strings are modelled as
  \<^typ>\<open>string\<close>, one \<^typ>\<open>char\<close> per character of the source string, so the model
  covers the characters with code points below 256.

  The values \<^verbatim>\<open>json.loads\<close> produces. A float is kept as mantissa and binary
  exponent, of which only its being zero is ever inspected; a dict is the list of its
  items, looked up by key.
\<close>

datatype json =
    JNull
  | JBool bool
  | JInt int
  | JFloat int int
  | JStr string
  | JArr "json list"
  | JObj "(string \<times> json) list"

text \<open>The exceptions the function can meet; all are caught at lines 154 to 158.\<close>

datatype exn =
    AttributeError
  | TypeError
  | KeyError
  | IndexError
  | JSONDecodeError
  | RequestError string

text \<open>
  One call of \<^verbatim>\<open>print\<close> is a list of fragments: literal text, or a value that the
  f-string formats with \<^verbatim>\<open>str\<close>. \<open>EmDash\<close> is the character U+2014 of line 88.
\<close>

datatype frag =
    Txt string
  | Val json
  | Num int
  | Err exn
  | Dumps json
  | KeyList "string list"
  | EmDash

type_synonym printed = "frag list"

text \<open>Python truth value of a decoded value (\<^verbatim>\<open>if data:\<close>, \<^verbatim>\<open>if keywords:\<close>).\<close>

fun truthy :: "json \<Rightarrow> bool" where
  "truthy JNull = False"
| "truthy (JBool b) = b"
| "truthy (JInt n) = (n \<noteq> 0)"
| "truthy (JFloat m e) = (m \<noteq> 0)"
| "truthy (JStr s) = (s \<noteq> [])"
| "truthy (JArr xs) = (xs \<noteq> [])"
| "truthy (JObj kvs) = (kvs \<noteq> [])"

text \<open>\<^verbatim>\<open>d.get(k, default)\<close> on the items of a dict.\<close>

definition dget :: "(string \<times> json) list \<Rightarrow> string \<Rightarrow> json \<Rightarrow> json" where
  "dget kvs k dflt = (case map_of kvs k of Some v \<Rightarrow> v | None \<Rightarrow> dflt)"

text \<open>\<^verbatim>\<open>len(v)\<close>: a \<^verbatim>\<open>TypeError\<close> for a value without a length.\<close>

definition py_len :: "json \<Rightarrow> exn + nat" where
  "py_len v =
     (case v of
        JStr s \<Rightarrow> Inr (length s)
      | JArr xs \<Rightarrow> Inr (length xs)
      | JObj kvs \<Rightarrow> Inr (length kvs)
      | _ \<Rightarrow> Inl TypeError)"

text \<open>
  The elements a \<^verbatim>\<open>for\<close> loop visits in a value that has a length: the items of a
  list, the characters of a string, the keys of a dict.
\<close>

definition py_iter :: "json \<Rightarrow> json list" where
  "py_iter v =
     (case v of
        JArr xs \<Rightarrow> xs
      | JStr s \<Rightarrow> map (\<lambda>c. JStr [c]) s
      | JObj kvs \<Rightarrow> map (\<lambda>kv. JStr (fst kv)) kvs
      | _ \<Rightarrow> [])"

section \<open>Stream decoder\<close>

definition dq :: char where
  "dq = CHR 0x22"

text \<open>\<^verbatim>\<open>marker = '{"query":"'\<close>\<close>

definition marker :: string where
  "marker = CHR ''{'' # dq # ''query'' @ [dq, CHR '':'', dq]"

text \<open>
  \<^verbatim>\<open>str.find\<close>: the lowest index at which the pattern occurs, or \<open>-1\<close>.
  \<open>find_at m s i\<close> searches the remainder \<open>s\<close> of the text, whose first character has
  index \<open>i\<close>.
\<close>

fun find_at :: "string \<Rightarrow> string \<Rightarrow> nat \<Rightarrow> int" where
  "find_at m [] i = (if m = [] then int i else -1)"
| "find_at m (c # cs) i = (if prefix m (c # cs) then int i else find_at m cs (Suc i))"

definition py_find :: "string \<Rightarrow> string \<Rightarrow> int" where
  "py_find s m = find_at m s 0"

text \<open>
  The brace counting loop, lines 74 to 83:
  \<^verbatim>\<open>for i in range(start_idx, len(content))\<close> visits the characters of
  \<open>content[start_idx:]\<close> in order; \<open>scan_braces cs depth i\<close> is the loop with \<open>cs\<close> left
  to visit, the counter at \<open>depth\<close> and the next index \<open>i\<close>. It returns the index at which
  the loop breaks, or \<open>None\<close> when the range is exhausted.
\<close>

fun scan_braces :: "string \<Rightarrow> int \<Rightarrow> nat \<Rightarrow> nat option" where
  "scan_braces [] depth i = None"
| "scan_braces (c # cs) depth i =
     (if c = CHR ''{'' then scan_braces cs (depth + 1) (Suc i)
      else if c = CHR ''}'' then
        (if depth - 1 = 0 then Some i else scan_braces cs (depth - 1) (Suc i))
      else scan_braces cs depth (Suc i))"

text \<open>\<^verbatim>\<open>content[a:b]\<close> for \<open>0 \<le> a\<close>, \<open>0 \<le> b\<close>.\<close>

definition slice :: "string \<Rightarrow> nat \<Rightarrow> nat \<Rightarrow> string" where
  "slice s a b = take (b - a) (drop a s)"

text \<open>
  Lines 68 to 81: the text handed to \<^verbatim>\<open>json.loads\<close>, if the loop reaches line 81.
\<close>

definition extract_json_str :: "string \<Rightarrow> string option" where
  "extract_json_str content =
     (let start_idx = py_find content marker in
      if start_idx \<noteq> -1 then
        (case scan_braces (drop (nat start_idx) content) 0 (nat start_idx) of
           Some i \<Rightarrow> Some (slice content (nat start_idx) (i + 1))
         | None \<Rightarrow> None)
      else None)"

text \<open>Reference notions for the claims: the running brace depth of a text.\<close>

fun brace_depth :: "string \<Rightarrow> int" where
  "brace_depth [] = 0"
| "brace_depth (c # cs) =
     (if c = CHR ''{'' then 1 else if c = CHR ''}'' then -1 else 0) + brace_depth cs"

text \<open>
  Text with nested, matched brace pairs: any character that is not a brace, or a pair of
  braces around such a text, repeated.
\<close>

inductive balanced :: "string \<Rightarrow> bool" where
  bal_Nil: "balanced []"
| bal_Chr: "c \<noteq> CHR ''{'' \<Longrightarrow> c \<noteq> CHR ''}'' \<Longrightarrow> balanced t \<Longrightarrow> balanced (c # t)"
| bal_Grp: "balanced s \<Longrightarrow> balanced t \<Longrightarrow> balanced (CHR ''{'' # s @ CHR ''}'' # t)"

code_pred balanced .

text \<open>
  Lines 71 to 83. \<^verbatim>\<open>json.loads\<close> is a parameter: \<open>None\<close> is its
  \<^verbatim>\<open>JSONDecodeError\<close>. \<open>data\<close> starts as Python's \<^verbatim>\<open>None\<close>, here \<open>JNull\<close>.
\<close>

definition decode :: "(string \<Rightarrow> json option) \<Rightarrow> string \<Rightarrow> exn + json" where
  "decode loads content =
     (case extract_json_str content of
        None \<Rightarrow> Inr JNull
      | Some json_str \<Rightarrow>
          (case loads json_str of
             None \<Rightarrow> Inl JSONDecodeError
           | Some data \<Rightarrow> Inr data))"

section \<open>Dates\<close>

text \<open>
  \<^verbatim>\<open>datetime.fromisoformat\<close> is library code. It is modelled on the format its
  documentation gives for the Python versions that need the \<^verbatim>\<open>'Z'\<close> replacement of
  line 13: \<^verbatim>\<open>YYYY-MM-DD[*HH[:MM[:SS[.fff[fff]]]][+HH:MM[:SS[.ffffff]]]]\<close>, where
  \<^verbatim>\<open>*\<close> is any single character, with the range checks of the \<^verbatim>\<open>datetime\<close>
  constructor. \<open>None\<close> is its \<^verbatim>\<open>ValueError\<close>.
\<close>

record datetime =
  year :: int
  month :: int
  day :: int
  hour :: int
  minute :: int
  second :: int
  microsecond :: int
  utcoffset :: "int option"

definition is_digit :: "char \<Rightarrow> bool" where
  "is_digit c \<longleftrightarrow> c \<in> set ''0123456789''"

definition digit_val :: "char \<Rightarrow> int" where
  "digit_val c = of_char c - of_char CHR ''0''"

text \<open>The value of a text made of decimal digits only.\<close>

definition digits_val :: "string \<Rightarrow> int option" where
  "digits_val ds =
     (if ds \<noteq> [] \<and> list_all is_digit ds
      then Some (foldl (\<lambda>acc c. 10 * acc + digit_val c) 0 ds)
      else None)"

text \<open>The \<open>n\<close> digits at position \<open>pos\<close>, if the text is long enough.\<close>

definition digits_at :: "string \<Rightarrow> nat \<Rightarrow> nat \<Rightarrow> int option" where
  "digits_at t pos n =
     (if pos + n \<le> length t then digits_val (take n (drop pos t)) else None)"

definition is_leap :: "int \<Rightarrow> bool" where
  "is_leap y \<longleftrightarrow> y mod 4 = 0 \<and> (y mod 100 \<noteq> 0 \<or> y mod 400 = 0)"

definition days_in_month :: "int \<Rightarrow> int \<Rightarrow> int" where
  "days_in_month y m =
     (if m = 2 then (if is_leap y then 29 else 28)
      else if m \<in> {4, 6, 9, 11} then 30 else 31)"

text \<open>
  \<^verbatim>\<open>HH[:MM[:SS[.fff[fff]]]]\<close>: hour, minute, second and microsecond, without range
  checks.
\<close>

definition parse_hh_mm_ss_ff :: "string \<Rightarrow> (int \<times> int \<times> int \<times> int) option" where
  "parse_hh_mm_ss_ff t =
     (case digits_at t 0 2 of
        None \<Rightarrow> None
      | Some h \<Rightarrow>
          if length t = 2 then Some (h, 0, 0, 0)
          else if t ! 2 \<noteq> CHR '':'' then None
          else (case digits_at t 3 2 of
            None \<Rightarrow> None
          | Some mi \<Rightarrow>
              if length t = 5 then Some (h, mi, 0, 0)
              else if t ! 5 \<noteq> CHR '':'' then None
              else (case digits_at t 6 2 of
                None \<Rightarrow> None
              | Some s \<Rightarrow>
                  if length t = 8 then Some (h, mi, s, 0)
                  else if t ! 8 \<noteq> CHR ''.'' then None
                  else if length t = 12 then
                    map_option (\<lambda>f. (h, mi, s, f * 1000)) (digits_at t 9 3)
                  else if length t = 15 then
                    map_option (\<lambda>f. (h, mi, s, f)) (digits_at t 9 6)
                  else None)))"

text \<open>
  The offset after the sign, \<^verbatim>\<open>HH:MM[:SS[.ffffff]]\<close>, in microseconds; it has to be
  less than a day.
\<close>

definition parse_offset :: "string \<Rightarrow> int option" where
  "parse_offset z =
     (if length z \<notin> {5, 8, 15} then None
      else (case parse_hh_mm_ss_ff z of
        None \<Rightarrow> None
      | Some (h, mi, s, f) \<Rightarrow>
          (let us = ((h * 60 + mi) * 60 + s) * 1000000 + f
           in if us < 86400000000 then Some us else None)))"

definition is_sign :: "char \<Rightarrow> bool" where
  "is_sign c \<longleftrightarrow> c = CHR ''+'' \<or> c = CHR ''-''"

text \<open>The date \<^verbatim>\<open>YYYY-MM-DD\<close>, with the range checks on year, month and day.\<close>

definition parse_isoformat_date :: "string \<Rightarrow> (int \<times> int \<times> int) option" where
  "parse_isoformat_date ds =
     (if length ds \<noteq> 10 \<or> ds ! 4 \<noteq> CHR ''-'' \<or> ds ! 7 \<noteq> CHR ''-'' then None
      else (case (digits_at ds 0 4, digits_at ds 5 2, digits_at ds 8 2) of
        (Some y, Some m, Some d) \<Rightarrow>
          if 1 \<le> y \<and> 1 \<le> m \<and> m \<le> 12 \<and> 1 \<le> d \<and> d \<le> days_in_month y m
          then Some (y, m, d) else None
      | _ \<Rightarrow> None))"

text \<open>
  The time with its optional offset, which starts at the first sign: hour, minute,
  second, microsecond and the offset in microseconds.
\<close>

definition parse_isoformat_time ::
  "string \<Rightarrow> (int \<times> int \<times> int \<times> int \<times> int option) option" where
  "parse_isoformat_time tstr =
     (let timestr = takeWhile (\<lambda>c. \<not> is_sign c) tstr;
          tzstr = dropWhile (\<lambda>c. \<not> is_sign c) tstr
      in case parse_hh_mm_ss_ff timestr of
        None \<Rightarrow> None
      | Some (h, mi, sec, us) \<Rightarrow>
          if \<not> (h < 24 \<and> mi < 60 \<and> sec < 60) then None
          else (case tzstr of
            [] \<Rightarrow> Some (h, mi, sec, us, None)
          | sg # z \<Rightarrow>
              (case parse_offset z of
                 None \<Rightarrow> None
               | Some off \<Rightarrow>
                   Some (h, mi, sec, us, Some (if sg = CHR ''-'' then - off else off)))))"

definition fromisoformat :: "string \<Rightarrow> datetime option" where
  "fromisoformat s =
     (case parse_isoformat_date (take 10 s) of
        None \<Rightarrow> None
      | Some (y, m, d) \<Rightarrow>
          if length s = 10 then
            Some \<lparr>year = y, month = m, day = d, hour = 0, minute = 0, second = 0,
                  microsecond = 0, utcoffset = None\<rparr>
          else
            (case parse_isoformat_time (drop 11 s) of
               None \<Rightarrow> None
             | Some (h, mi, sec, us, tz) \<Rightarrow>
                 Some \<lparr>year = y, month = m, day = d, hour = h, minute = mi, second = sec,
                       microsecond = us, utcoffset = tz\<rparr>))"

text \<open>
  \<^verbatim>\<open>strftime('%d %b %Y')\<close> in the C locale: the day in two digits, the English
  abbreviation of the month, and the year in four digits with leading zeros, as the
  documentation of the format codes gives them.
\<close>

definition digit_char :: "int \<Rightarrow> char" where
  "digit_char n = ''0123456789'' ! nat (n mod 10)"

definition month_abbr :: "int \<Rightarrow> string" where
  "month_abbr m =
     [''Jan'', ''Feb'', ''Mar'', ''Apr'', ''May'', ''Jun'',
      ''Jul'', ''Aug'', ''Sep'', ''Oct'', ''Nov'', ''Dec''] ! nat (m - 1)"

definition strftime :: "datetime \<Rightarrow> string" where
  "strftime dt =
     [digit_char (day dt div 10), digit_char (day dt)] @ '' '' @ month_abbr (month dt) @ '' '' @
     [digit_char (year dt div 1000), digit_char (year dt div 100),
      digit_char (year dt div 10), digit_char (year dt)]"

text \<open>\<^verbatim>\<open>date_str.replace('Z', '+00:00')\<close>: every \<open>Z\<close> is replaced.\<close>

definition replace_Z :: "string \<Rightarrow> string" where
  "replace_Z s = concat (map (\<lambda>c. if c = CHR ''Z'' then ''+00:00'' else [c]) s)"

text \<open>
  \<^verbatim>\<open>format_date\<close>, lines 8 to 16. The argument is whatever the record holds; a value
  that is not a string has no \<^verbatim>\<open>replace\<close>, and the bare \<^verbatim>\<open>except\<close> returns it
  as it came.
\<close>

definition format_date :: "json \<Rightarrow> json" where
  "format_date date_str =
     (if \<not> truthy date_str then JStr ''N/A''
      else (case date_str of
        JStr s \<Rightarrow>
          (case fromisoformat (replace_Z s) of
             Some dt \<Rightarrow> JStr (strftime dt)
           | None \<Rightarrow> date_str)
      | _ \<Rightarrow> date_str))"


section \<open>Keywords\<close>

text \<open>\<^verbatim>\<open>str.split(sep)\<close> for a separator of one character.\<close>

fun split_on :: "char \<Rightarrow> string \<Rightarrow> string list" where
  "split_on sep [] = [[]]"
| "split_on sep (c # cs) =
     (if c = sep then [] # split_on sep cs
      else (case split_on sep cs of
        p # ps \<Rightarrow> (c # p) # ps
      | [] \<Rightarrow> [[c]]))"

text \<open>
  The characters \<^verbatim>\<open>str.strip()\<close> removes, among the code points below 256: tab to
  carriage return, the four separators \<open>0x1C\<close> to \<open>0x1F\<close>, the space, \<open>0x85\<close> and the
  no-break space.
\<close>

definition is_space :: "char \<Rightarrow> bool" where
  "is_space c \<longleftrightarrow>
     c \<in> {CHR 0x09, CHR 0x0A, CHR 0x0B, CHR 0x0C, CHR 0x0D, CHR 0x1C, CHR 0x1D, CHR 0x1E,
          CHR 0x1F, CHR 0x20, CHR 0x85, CHR 0xA0}"

definition py_strip :: "string \<Rightarrow> string" where
  "py_strip s = rev (dropWhile is_space (rev (dropWhile is_space s)))"

text \<open>Line 139: \<^verbatim>\<open>[k.strip() for k in keywords.split(',') if k.strip()]\<close>.\<close>

definition kw_split :: "string \<Rightarrow> string list" where
  "kw_split keywords =
     map py_strip (filter (\<lambda>k. py_strip k \<noteq> []) (split_on CHR '','' keywords))"

text \<open>Line 139 as a whole: a value that is not a string is taken as it is.\<close>

definition kw_list_of :: "json \<Rightarrow> json" where
  "kw_list_of keywords =
     (case keywords of
        JStr s \<Rightarrow> JArr (map JStr (kw_split s))
      | _ \<Rightarrow> keywords)"

text \<open>\<^verbatim>\<open>sep.join(items)\<close> on strings.\<close>

fun join_sep :: "string \<Rightarrow> string list \<Rightarrow> string" where
  "join_sep sep [] = []"
| "join_sep sep [x] = x"
| "join_sep sep (x # y # ys) = x @ sep @ join_sep sep (y # ys)"

text \<open>The items as strings, if every one of them is a string.\<close>

fun str_items :: "json list \<Rightarrow> string list option" where
  "str_items [] = Some []"
| "str_items (JStr s # vs) = map_option ((#) s) (str_items vs)"
| "str_items (_ # vs) = None"

text \<open>
  \<^verbatim>\<open>', '.join(kw_list[:20])\<close>, line 140. Slicing raises on a value that is neither a
  list nor a string (for a dict a \<^verbatim>\<open>TypeError\<close> up to Python 3.11 and a
  \<^verbatim>\<open>KeyError\<close> after), and \<^verbatim>\<open>join\<close> raises on an item that is not a string.
\<close>

definition kw_display :: "json \<Rightarrow> exn + string" where
  "kw_display kw_list =
     (case kw_list of
        JArr xs \<Rightarrow>
          (case str_items (take 20 xs) of
             Some ss \<Rightarrow> Inr (join_sep '', '' ss)
           | None \<Rightarrow> Inl TypeError)
      | JStr s \<Rightarrow> Inr (join_sep '', '' (map (\<lambda>c. [c]) (take 20 s)))
      | _ \<Rightarrow> Inl TypeError)"

text \<open>Lines 137 to 141: what is printed for the keywords, and the exception if any.\<close>

definition print_keywords :: "json \<Rightarrow> printed list \<times> exn option" where
  "print_keywords keywords =
     (if truthy keywords then
        (let kw_list = kw_list_of keywords in
         case kw_display kw_list of
           Inl e \<Rightarrow> ([], Some e)
         | Inr shown \<Rightarrow>
             (case py_len kw_list of
                Inl e \<Rightarrow> ([[Txt ''  Keywords:     '', Txt shown]], Some e)
              | Inr n \<Rightarrow>
                  ([[Txt ''  Keywords:     '', Txt shown],
                    [Txt ''  KW Count:     '', Num (int n)]], None)))
      else ([], None))"

section \<open>Request building\<close>

text \<open>
  \<^verbatim>\<open>urllib.parse.quote_plus\<close> is library code: the string is encoded in UTF-8, a
  space becomes \<open>+\<close>, letters, digits and \<^verbatim>\<open>_.-~\<close> are kept, and every other byte
  becomes \<open>%XX\<close> in upper case.
\<close>

definition always_safe :: "char \<Rightarrow> bool" where
  "always_safe c \<longleftrightarrow>
     c \<in> set ''ABCDEFGHIJKLMNOPQRSTUVWXYZabcdefghijklmnopqrstuvwxyz0123456789_.-~''"

definition utf8 :: "char \<Rightarrow> nat list" where
  "utf8 c =
     (let n = of_char c :: nat
      in if n < 128 then [n] else [192 + n div 64, 128 + n mod 64])"

definition hex_digit :: "nat \<Rightarrow> char" where
  "hex_digit n = ''0123456789ABCDEF'' ! (n mod 16)"

definition percent :: "nat \<Rightarrow> string" where
  "percent b = [CHR ''%'', hex_digit (b div 16), hex_digit b]"

definition quote_char :: "char \<Rightarrow> string" where
  "quote_char c =
     (if c = CHR '' '' then ''+''
      else if always_safe c then [c]
      else concat (map percent (utf8 c)))"

definition quote_plus :: "string \<Rightarrow> string" where
  "quote_plus s = concat (map quote_char s)"

text \<open>
  Reference notion for the claims: the characters of an encoded query, which are the
  unreserved ones, the plus sign and the percent sign.
\<close>

definition url_char :: "char \<Rightarrow> bool" where
  "url_char c \<longleftrightarrow> always_safe c \<or> c = CHR ''+'' \<or> c = CHR ''%''"

text \<open>\<^verbatim>\<open>str(n)\<close> for an integer.\<close>

fun show_nat :: "nat \<Rightarrow> string" where
  "show_nat n =
     (if n < 10 then [digit_char (int n)] else show_nat (n div 10) @ [digit_char (int n)])"

declare show_nat.simps [simp del]

definition show_int :: "int \<Rightarrow> string" where
  "show_int i = (if i < 0 then CHR ''-'' # show_nat (nat (- i)) else show_nat (nat i))"

text \<open>Lines 24 to 31.\<close>

definition build_url :: "string \<Rightarrow> int \<Rightarrow> bool \<Rightarrow> string" where
  "build_url query page ai_only =
     ''https://trackadobestock.com/search?q='' @ quote_plus query @
     (if ai_only then ''&generative_ai=only'' else []) @
     (if page > 1 then ''&page='' @ show_int page else []) @
     ''&_rsc=1gn38''"

section \<open>Result records\<close>

definition rule60 :: printed where
  "rule60 = [Txt (replicate 60 CHR ''='')]"

text \<open>
  The body of the loop, lines 101 to 148, for the image numbered \<open>idx\<close>: what it prints,
  and the exception that ends it, if any. An image that is not a dict has no
  \<^verbatim>\<open>get\<close>.
\<close>

definition process_image :: "nat \<Rightarrow> json \<Rightarrow> printed list \<times> exn option" where
  "process_image idx img =
     (case img of
        JObj f \<Rightarrow>
          (let title = dget f ''title'' (JStr ''N/A'');
               is_ai = dget f ''isAI'' (JBool False);
               ai_tag = (if truthy is_ai then '' [AI-Generated]'' else []);
               stock_id = dget f ''id'' (JStr ''N/A'');
               downloads = dget f ''downloads'' (JStr ''N/A'');
               premium = dget f ''premium'' (JStr ''N/A'');
               creator = dget f ''creator'' (JStr ''N/A'');
               creator_id = dget f ''creatorId'' (JStr []);
               media_type = dget f ''mediaType'' (JStr ''N/A'');
               category = dget f ''category'' (JStr ''N/A'');
               content_type = dget f ''contentType'' (JStr ''N/A'');
               dimensions = dget f ''dimensions'' (JStr ''N/A'');
               creation_date = dget f ''creationDate'' (JStr []);
               creator_str =
                 (if truthy creator_id
                  then [Val creator, Txt '' (ID: '', Val creator_id, Txt '')'']
                  else [Val creator]);
               keywords = dget f ''keywords'' (JStr []);
               thumb = dget f ''thumbnailUrl'' (JStr ''N/A'');
               head =
                 [rule60,
                  [Txt ''  #'', Num (int idx), Txt '' '', Val title, Txt ai_tag],
                  rule60,
                  [Txt ''  Stock ID:     '', Val stock_id],
                  [Txt ''  Downloads:    '', Val downloads],
                  [Txt ''  Premium:      '', Val premium],
                  Txt ''  Creator:      '' # creator_str,
                  [Txt ''  Type:         '', Val media_type, Txt '' ('', Val content_type,
                   Txt '')''],
                  [Txt ''  Category:     '', Val category],
                  [Txt ''  Dimensions:   '', Val dimensions]] @
                 (if truthy creation_date
                  then [[Txt ''  Upload Date:  '', Val (format_date creation_date)]]
                  else [])
           in case print_keywords keywords of
                (kw, Some e) \<Rightarrow> (head @ kw, Some e)
              | (kw, None) \<Rightarrow>
                  (head @ kw @
                   [[Txt ''  Thumbnail:    '', Val thumb],
                    [Txt ''  Stock URL:    https://stock.adobe.com/'', Val stock_id],
                    []],
                   None))
      | _ \<Rightarrow> ([], Some AttributeError))"

text \<open>
  The loop of line 100 over the images still to visit, the next one numbered \<open>idx\<close>. An
  exception leaves the loop; what was printed before it stays printed.
\<close>

fun image_loop :: "nat \<Rightarrow> json list \<Rightarrow> printed list \<times> exn option" where
  "image_loop idx [] = ([], None)"
| "image_loop idx (img # imgs) =
     (case process_image idx img of
        (out, Some e) \<Rightarrow> (out, Some e)
      | (out, None) \<Rightarrow>
          (case image_loop (Suc idx) imgs of (out', r) \<Rightarrow> (out @ out', r)))"

text \<open>
  \<^verbatim>\<open>images[0]\<close> of line 95: the first item of a list, the first character of a
  string; a dict decoded from JSON has no key \<open>0\<close>, and the other values cannot be
  indexed.
\<close>

definition first_item :: "json \<Rightarrow> exn + json" where
  "first_item images =
     (case images of
        JArr xs \<Rightarrow> (case xs of [] \<Rightarrow> Inl IndexError | x # _ \<Rightarrow> Inr x)
      | JStr s \<Rightarrow> (case s of [] \<Rightarrow> Inl IndexError | c # _ \<Rightarrow> Inr (JStr [c]))
      | JObj kvs \<Rightarrow> Inl KeyError
      | _ \<Rightarrow> Inl TypeError)"

text \<open>Lines 91 to 98, the dump of the first image when \<^verbatim>\<open>--raw\<close> is given.\<close>

definition raw_dump :: "(string \<times> json) list \<Rightarrow> json \<Rightarrow> printed list \<times> exn option" where
  "raw_dump entries images =
     (let banner = [rule60, [Txt ''RAW JSON - First Image (all available fields):''], rule60]
      in case first_item images of
           Inl e \<Rightarrow> (banner, Some e)
         | Inr img0 \<Rightarrow>
             (banner @
              [[Dumps img0], rule60,
               [Txt (CHR 0x0A # ''Top-level data keys: ''), KeyList (map fst entries)],
               []],
              None))"

text \<open>Lines 86 to 148: the report on a decoded payload that is true in Python's sense.\<close>

definition present :: "json \<Rightarrow> int \<Rightarrow> bool \<Rightarrow> printed list \<times> exn option" where
  "present data page raw =
     (case data of
        JObj entries \<Rightarrow>
          (let images = dget entries ''images'' (JArr []);
               usage = dget entries ''usageData'' (JObj [])
           in case py_len images of
                Inl e \<Rightarrow> ([], Some e)
              | Inr n \<Rightarrow>
                  (case usage of
                     JObj u \<Rightarrow>
                       (let summary =
                              [Txt ''Page '', Num page, Txt '' '', EmDash, Txt '' Found '',
                               Num (int n), Txt '' results (Plan: '',
                               Val (dget u ''plan'' (JStr ''N/A'')), Txt '', Searches: '',
                               Val (dget u ''searchesUsed'' (JStr ''?'')), Txt ''/'',
                               Val (dget u ''searchesLimit'' (JStr ''?'')),
                               Txt ('')'' @ [CHR 0x0A])]
                        in case (if raw \<and> truthy images then raw_dump entries images
                                 else ([], None)) of
                             (dump, Some e) \<Rightarrow> (summary # dump, Some e)
                           | (dump, None) \<Rightarrow>
                               (case image_loop 1 (py_iter images) of
                                  (out, r) \<Rightarrow> (summary # dump @ out, r)))
                   | _ \<Rightarrow> ([], Some AttributeError)))
      | _ \<Rightarrow> ([], Some AttributeError))"

text \<open>Lines 150 to 152.\<close>

definition preview :: "string \<Rightarrow> printed list" where
  "preview content =
     [[Txt ''Could not find image data in the response. The RSC format might have changed.''],
      [Txt (CHR 0x0A # ''Response Preview (first 3000 chars):'')],
      [Txt (take 3000 content)]]"

text \<open>Lines 65 to 152, the work on the body of a successful response.\<close>

definition handle_body ::
  "(string \<Rightarrow> json option) \<Rightarrow> string \<Rightarrow> int \<Rightarrow> bool \<Rightarrow> printed list \<times> exn option" where
  "handle_body loads content page raw =
     (case decode loads content of
        Inl e \<Rightarrow> ([], Some e)
      | Inr data \<Rightarrow>
          if truthy data then present data page raw else (preview content, None))"

text \<open>
  Reference notions for the claims, after the data model: keywords are a string or a
  sequence of strings, and an image record is an object, each field of which may be
  absent, whose keywords, if it has any that count as true, are of that kind.
\<close>

fun keywords_typed :: "json \<Rightarrow> bool" where
  "keywords_typed (JStr s) = True"
| "keywords_typed (JArr xs) = (str_items xs \<noteq> None)"
| "keywords_typed _ = False"

fun image_ok :: "json \<Rightarrow> bool" where
  "image_ok (JObj f) =
     (let keywords = dget f ''keywords'' (JStr []) in \<not> truthy keywords \<or> keywords_typed keywords)"
| "image_ok _ = False"

text \<open>
  Reading the report back: the number and the title shown on the heading line of a
  record, and the headings of a whole report in the order in which they were printed.
\<close>

definition header_of :: "printed \<Rightarrow> (int \<times> json) option" where
  "header_of l =
     (if length l = 5 \<and> hd l = Txt ''  #'' then
        (case (l ! 1, l ! 3) of
           (Num i, Val title) \<Rightarrow> Some (i, title)
         | _ \<Rightarrow> None)
      else None)"

fun shown_records :: "printed list \<Rightarrow> (int \<times> json) list" where
  "shown_records [] = []"
| "shown_records (l # ls) =
     (case header_of l of
        Some r \<Rightarrow> r # shown_records ls
      | None \<Rightarrow> shown_records ls)"

text \<open>The title a record is shown with: its own, or the default.\<close>

definition title_of :: "json \<Rightarrow> json" where
  "title_of img = (case img of JObj f \<Rightarrow> dget f ''title'' (JStr ''N/A'') | _ \<Rightarrow> JStr ''N/A'')"

section \<open>The invocation\<close>

text \<open>
  What \<^verbatim>\<open>client.get\<close> gives for a URL: an exception of the transport, or a status
  and a body. \<^verbatim>\<open>raise_for_status\<close> of the HTTP library raises for every status that
  is not 2xx.
\<close>

datatype response = Failed string | Response int string

definition is_success :: "int \<Rightarrow> bool" where
  "is_success status \<longleftrightarrow> 200 \<le> status \<and> status \<le> 299"

record outcome =
  requests :: "string list"
  printout :: "printed list"

text \<open>
  \<^verbatim>\<open>search_adobe_stock\<close>, lines 18 to 160, with the JSON parser and the network as
  parameters. The outcome lists the URLs requested and the calls of \<^verbatim>\<open>print\<close>.
\<close>

definition search_adobe_stock ::
  "(string \<Rightarrow> json option) \<Rightarrow> (string \<Rightarrow> response) \<Rightarrow> string \<Rightarrow> int \<Rightarrow> bool \<Rightarrow> bool \<Rightarrow> outcome" where
  "search_adobe_stock loads client_get query page ai_only raw =
     (let searching =
            [Txt ''Searching for: '', Txt query, Txt '' (Page '', Num page, Txt '')...''];
          url = build_url query page ai_only;
          rest =
            (case client_get url of
               Failed msg \<Rightarrow> [[Txt ''An error occurred: '', Err (RequestError msg)]]
             | Response status text \<Rightarrow>
                 if \<not> is_success status then
                   [[Txt ''HTTP Error: '', Num status],
                    [Txt ''Response: '', Txt (take 1000 text)]]
                 else
                   (case handle_body loads text page raw of
                      (out, Some e) \<Rightarrow> out @ [[Txt ''An error occurred: '', Err e]]
                    | (out, None) \<Rightarrow> out))
      in \<lparr>requests = [url], printout = searching # rest\<rparr>)"

section \<open>Properties of the stream decoder\<close>

lemma brace_depth_append: "brace_depth (xs @ ys) = brace_depth xs + brace_depth ys"
  by (induction xs) simp_all

lemma find_at_absent: "\<not> sublist m s \<Longrightarrow> find_at m s i = -1"
proof (induction s arbitrary: i)
  case Nil
  then show ?case by auto
next
  case (Cons c cs)
  then show ?case by (auto simp: sublist_Cons_right)
qed

lemma find_at_hit: "prefix m s \<Longrightarrow> find_at m s i = int i"
  by (cases s) auto

lemma find_at_skip:
  "(\<forall>k<length pre. \<not> prefix m (drop k (pre @ rest))) \<Longrightarrow>
   find_at m (pre @ rest) i = find_at m rest (i + length pre)"
proof (induction pre arbitrary: i)
  case Nil
  then show ?case by simp
next
  case (Cons c pre)
  have "\<not> prefix m ((c # pre) @ rest)"
    using Cons.prems by (metis drop0 length_greater_0_conv list.distinct(1))
  moreover have "\<forall>k<length pre. \<not> prefix m (drop k (pre @ rest))"
    using Cons.prems by (metis Suc_less_eq append_Cons drop_Suc_Cons length_Cons)
  ultimately show ?case using Cons.IH [of "Suc i"] by simp
qed

lemma marker_length: "length marker = 10"
  by (simp add: marker_def)

lemma marker_brace_only_first: "0 < j \<Longrightarrow> j < 10 \<Longrightarrow> marker ! j \<noteq> CHR ''{''"
proof -
  assume "0 < j" "j < 10"
  then have "j \<in> {1,2,3,4,5,6,7,8,9}" by auto
  then show ?thesis by (auto simp: marker_def dq_def)
qed

lemma marker_no_straddle:
  assumes obj: "prefix marker obj" and pre: "\<not> sublist marker pre" and k: "k < length pre"
  shows "\<not> prefix marker (drop k (pre @ obj @ post))"
proof
  assume p: "prefix marker (drop k (pre @ obj @ post))"
  define p' where "p' = drop k pre"
  have eq: "drop k (pre @ obj @ post) = p' @ obj @ post"
    using k by (simp add: p'_def)
  have len: "0 < length p'" using k by (simp add: p'_def)
  show False
  proof (cases "10 \<le> length p'")
    case True
    with p eq have "prefix marker p'"
      by (metis eq p True prefix_length_prefix marker_length append_prefixD prefix_append)
    then have "sublist marker pre"
      unfolding p'_def using sublist_altdef' suffix_drop by blast
    with pre show False by simp
  next
    case False
    then have j: "length p' < 10" by simp
    from obj obtain r where r: "obj = marker @ r" by (auto simp: prefix_def)
    have "(p' @ obj @ post) ! length p' = CHR ''{''"
      by (simp add: r marker_def)
    moreover from p eq j have "(p' @ obj @ post) ! length p' = marker ! length p'"
      by (metis marker_length nth_append_left prefixE)
    ultimately show False using marker_brace_only_first [OF len j] by simp
  qed
qed

lemma py_find_framed:
  assumes "prefix marker obj" and "\<not> sublist marker pre"
  shows "py_find (pre @ obj @ post) marker = int (length pre)"
proof -
  have "\<forall>k<length pre. \<not> prefix marker (drop k (pre @ obj @ post))"
    using marker_no_straddle [OF assms] by blast
  then have "find_at marker (pre @ obj @ post) 0 = find_at marker (obj @ post) (0 + length pre)"
    by (rule find_at_skip)
  also have "\<dots> = int (length pre)"
    using assms(1) by (simp add: find_at_hit prefix_prefix)
  finally show ?thesis by (simp add: py_find_def)
qed

lemma scan_braces_close:
  "0 < d \<Longrightarrow> cs \<noteq> [] \<Longrightarrow> d + brace_depth cs = 0 \<Longrightarrow>
   (\<forall>n<length cs. 0 < d + brace_depth (take n cs)) \<Longrightarrow>
   scan_braces (cs @ post) d i = Some (i + length cs - 1)"
proof (induction cs arbitrary: d i)
  case Nil
  then show ?case by simp
next
  case (Cons c cs)
  show ?case
  proof (cases "cs = []")
    case True
    with Cons.prems show ?thesis by (auto split: if_splits)
  next
    case False
    define d' where "d' = d + (if c = CHR ''{'' then 1 else if c = CHR ''}'' then -1 else 0)"
    have "0 < d + brace_depth (take 1 (c # cs))"
      using Cons.prems(4) [rule_format, of 1] False by simp
    then have pos: "0 < d'" by (simp add: d'_def)
    have sum: "d' + brace_depth cs = 0" using Cons.prems(3) by (simp add: d'_def)
    have inv: "\<forall>n<length cs. 0 < d' + brace_depth (take n cs)"
    proof (intro allI impI)
      fix n assume "n < length cs"
      then have "0 < d + brace_depth (take (Suc n) (c # cs))"
        using Cons.prems(4) [rule_format, of "Suc n"] by simp
      then show "0 < d' + brace_depth (take n cs)" by (simp add: d'_def)
    qed
    have "scan_braces (cs @ post) d' (Suc i) = Some (Suc i + length cs - 1)"
      by (rule Cons.IH [OF pos False sum inv])
    moreover have "scan_braces ((c # cs) @ post) d i = scan_braces (cs @ post) d' (Suc i)"
      using pos by (auto simp: d'_def)
    ultimately show ?thesis using False by simp
  qed
qed

lemma scan_braces_open:
  "0 < d \<Longrightarrow> (\<forall>n\<le>length cs. d + brace_depth (take n cs) \<noteq> 0) \<Longrightarrow>
   scan_braces cs d i = None"
proof (induction cs arbitrary: d i)
  case Nil
  then show ?case by simp
next
  case (Cons c cs)
  define d' where "d' = d + (if c = CHR ''{'' then 1 else if c = CHR ''}'' then -1 else 0)"
  have "d + brace_depth (take 1 (c # cs)) \<noteq> 0"
    using Cons.prems(2) [rule_format, of 1] by simp
  then have "d' \<noteq> 0" by (simp add: d'_def)
  with Cons.prems(1) have pos: "0 < d'" by (auto simp: d'_def split: if_splits)
  have inv: "\<forall>n\<le>length cs. d' + brace_depth (take n cs) \<noteq> 0"
  proof (intro allI impI)
    fix n assume "n \<le> length cs"
    then have "d + brace_depth (take (Suc n) (c # cs)) \<noteq> 0"
      using Cons.prems(2) [rule_format, of "Suc n"] by simp
    then show "d' + brace_depth (take n cs) \<noteq> 0" by (simp add: d'_def)
  qed
  have "scan_braces cs d' (Suc i) = None" by (rule Cons.IH [OF pos inv])
  moreover have "scan_braces (c # cs) d i = scan_braces cs d' (Suc i)"
    using \<open>d' \<noteq> 0\<close> by (auto simp: d'_def)
  ultimately show ?case by simp
qed

lemma balanced_depth:
  "balanced t \<Longrightarrow> brace_depth t = 0 \<and> (\<forall>n. 0 \<le> brace_depth (take n t))"
proof (induction rule: balanced.induct)
  case bal_Nil
  then show ?case by simp
next
  case (bal_Chr c t)
  show ?case
  proof (intro conjI allI)
    show "brace_depth (c # t) = 0" using bal_Chr by simp
    fix n show "0 \<le> brace_depth (take n (c # t))"
      using bal_Chr by (cases n) simp_all
  qed
next
  case (bal_Grp s t)
  show ?case
  proof (intro conjI allI)
    show "brace_depth (CHR ''{'' # s @ CHR ''}'' # t) = 0"
      using bal_Grp by (simp add: brace_depth_append)
    fix n
    show "0 \<le> brace_depth (take n (CHR ''{'' # s @ CHR ''}'' # t))"
    proof (cases n)
      case 0
      then show ?thesis by simp
    next
      case (Suc m)
      show ?thesis
      proof (cases "m \<le> length s")
        case True
        then show ?thesis using bal_Grp Suc by (simp add: add_nonneg_nonneg)
      next
        case False
        then obtain k where k: "m - length s = Suc k" by (cases "m - length s") auto
        then show ?thesis using bal_Grp Suc False by (simp add: brace_depth_append)
      qed
    qed
  qed
qed

lemma object_depth:
  assumes "balanced t"
  shows "brace_depth (CHR ''{'' # t @ ''}'') = 0"
    and "0 < n \<Longrightarrow> n < length (CHR ''{'' # t @ ''}'') \<Longrightarrow>
         0 < brace_depth (take n (CHR ''{'' # t @ ''}''))"
proof -
  show "brace_depth (CHR ''{'' # t @ ''}'') = 0"
    using balanced_depth [OF assms] by (simp add: brace_depth_append)
  assume "0 < n" and n: "n < length (CHR ''{'' # t @ ''}'')"
  then obtain m where m: "n = Suc m" by (cases n) auto
  with n have "m \<le> length t" by simp
  then have "take n (CHR ''{'' # t @ ''}'') = CHR ''{'' # take m t" by (simp add: m)
  moreover have "0 \<le> brace_depth (take m t)" using balanced_depth [OF assms] by blast
  ultimately show "0 < brace_depth (take n (CHR ''{'' # t @ ''}''))" by simp
qed

lemma scan_object:
  assumes "balanced t"
  shows "scan_braces ((CHR ''{'' # t @ ''}'') @ post) 0 i = Some (i + length (CHR ''{'' # t @ ''}'') - 1)"
proof -
  have inv: "\<forall>n<length (t @ ''}''). 0 < 1 + brace_depth (take n (t @ ''}''))"
  proof (intro allI impI)
    fix n assume "n < length (t @ ''}'')"
    then have "n \<le> length t" by simp
    then have "take n (t @ ''}'') = take n t" by simp
    moreover have "0 \<le> brace_depth (take n t)" using balanced_depth [OF assms] by blast
    ultimately show "0 < 1 + brace_depth (take n (t @ ''}''))" by simp
  qed
  have sum: "1 + brace_depth (t @ ''}'') = 0"
    using balanced_depth [OF assms] by (simp add: brace_depth_append)
  have "scan_braces ((t @ ''}'') @ post) 1 (Suc i) = Some (Suc i + length (t @ ''}'') - 1)"
    by (rule scan_braces_close [OF _ _ sum inv]) simp_all
  then show ?thesis by simp
qed

lemma extract_framed:
  assumes "balanced t" and "obj = CHR ''{'' # t @ ''}''" and "prefix marker obj"
    and "\<not> sublist marker pre"
  shows "extract_json_str (pre @ obj @ post) = Some obj"
proof -
  have f: "py_find (pre @ obj @ post) marker = int (length pre)"
    by (rule py_find_framed [OF assms(3,4)])
  have s: "scan_braces (obj @ post) 0 (length pre) = Some (length pre + length obj - 1)"
    unfolding assms(2) by (rule scan_object [OF assms(1)])
  have "obj \<noteq> []" using assms(2) by simp
  then have "slice (pre @ obj @ post) (length pre) (length pre + length obj - 1 + 1) = obj"
    by (cases obj) (simp_all add: slice_def)
  with f s show ?thesis by (simp add: extract_json_str_def)
qed

lemma balanced_chars:
  "\<forall>c\<in>set cs. c \<noteq> CHR ''{'' \<and> c \<noteq> CHR ''}'' \<Longrightarrow> balanced t \<Longrightarrow> balanced (cs @ t)"
  by (induction cs) (auto intro: balanced.intros)

text \<open>
  C1, as amended. Let the body be framing text, then an object, then more framing text,
  where the object is an opening brace, text with matched nested brace pairs, and a
  closing brace, and begins with the marker. If the framing text before the object does
  not itself contain the marker, then \<^verbatim>\<open>find\<close> returns the position of the object,
  the brace counting loop started there breaks exactly at the closing brace of the
  object, the depth never returns to zero at an earlier position, and the text handed to
  the JSON parser is exactly the object, whatever the framing text after it.
\<close>

theorem decoder_extracts_framed_object:
  assumes "balanced t" and "obj = CHR ''{'' # t @ ''}''" and "prefix marker obj"
    and "\<not> sublist marker pre"
  shows "py_find (pre @ obj @ post) marker = int (length pre) \<and>
         scan_braces (drop (length pre) (pre @ obj @ post)) 0 (length pre) =
           Some (length pre + length obj - 1) \<and>
         (\<forall>n. 0 < n \<and> n < length obj \<longrightarrow> 0 < brace_depth (take n obj)) \<and>
         brace_depth obj = 0 \<and>
         extract_json_str (pre @ obj @ post) = Some obj"
proof (intro conjI)
  show "py_find (pre @ obj @ post) marker = int (length pre)"
    by (rule py_find_framed [OF assms(3,4)])
  show "scan_braces (drop (length pre) (pre @ obj @ post)) 0 (length pre) =
          Some (length pre + length obj - 1)"
    using scan_object [OF assms(1), of post "length pre"] by (simp add: assms(2))
  show "\<forall>n. 0 < n \<and> n < length obj \<longrightarrow> 0 < brace_depth (take n obj)"
    unfolding assms(2) using object_depth(2) [OF assms(1)] by blast
  show "brace_depth obj = 0"
    unfolding assms(2) by (rule object_depth(1) [OF assms(1)])
  show "extract_json_str (pre @ obj @ post) = Some obj"
    by (rule extract_framed [OF assms])
qed

text \<open>The theorem at a body with noise on both sides of an object with a nested pair.\<close>

theorem decoder_extracts_framed_object_witness:
  "extract_json_str (''1:noise'' @ (marker @ ''cats'' @ [dq] @ '',{}}'') @ ''trailing'') =
     Some (marker @ ''cats'' @ [dq] @ '',{}}'')"
proof -
  have b0: "balanced ''{}''" using bal_Grp [OF bal_Nil bal_Nil] by simp
  have b: "balanced ((dq # ''query'' @ [dq, CHR '':'', dq] @ ''cats'' @ [dq] @ '','') @ ''{}'')"
    by (rule balanced_chars [OF _ b0]) (simp add: dq_def)
  have o: "marker @ ''cats'' @ [dq] @ '',{}}'' =
           CHR ''{'' # ((dq # ''query'' @ [dq, CHR '':'', dq] @ ''cats'' @ [dq] @ '','') @ ''{}'') @ ''}''"
    by (simp add: marker_def)
  have p: "prefix marker (marker @ ''cats'' @ [dq] @ '',{}}'')" by simp
  have n: "\<not> sublist marker ''1:noise''" by (simp add: marker_def dq_def sublist_code)
  from decoder_extracts_framed_object [OF b o p n, of "''trailing''"] show ?thesis by blast
qed

text \<open>
  C1 as stated fails when the framing text before the object contains the marker: the
  search starts at that earlier marker, and here the depth never returns to zero.
\<close>

theorem decoder_first_marker_counterexample:
  "balanced (dq # ''query'' @ [dq, CHR '':'', dq, CHR ''a'', dq]) \<and>
   prefix marker (CHR ''{'' # (dq # ''query'' @ [dq, CHR '':'', dq, CHR ''a'', dq]) @ ''}'') \<and>
   extract_json_str
     (marker @ (CHR ''{'' # (dq # ''query'' @ [dq, CHR '':'', dq, CHR ''a'', dq]) @ ''}'') @ ''tail'')
     = None"
proof (intro conjI)
  show "balanced (dq # ''query'' @ [dq, CHR '':'', dq, CHR ''a'', dq])"
    using balanced_chars [OF _ bal_Nil, of "dq # ''query'' @ [dq, CHR '':'', dq, CHR ''a'', dq]"]
    by (simp add: dq_def)
  show "prefix marker (CHR ''{'' # (dq # ''query'' @ [dq, CHR '':'', dq, CHR ''a'', dq]) @ ''}'')"
    by (simp add: marker_def)
  show "extract_json_str
     (marker @ (CHR ''{'' # (dq # ''query'' @ [dq, CHR '':'', dq, CHR ''a'', dq]) @ ''}'') @ ''tail'')
     = None"
    by (simp add: extract_json_str_def py_find_def marker_def dq_def slice_def)
qed

section \<open>The preview on a body without a payload\<close>

lemma py_find_absent: "\<not> sublist marker content \<Longrightarrow> py_find content marker = -1"
  by (simp add: py_find_def find_at_absent)

lemma extract_absent: "\<not> sublist marker content \<Longrightarrow> extract_json_str content = None"
  by (simp add: extract_json_str_def py_find_absent)

lemma handle_body_no_span:
  "extract_json_str content = None \<Longrightarrow>
   handle_body loads content page raw = (preview content, None)"
  by (simp add: handle_body_def decode_def)

lemma search_success:
  "client_get (build_url query page ai_only) = Response status content \<Longrightarrow> is_success status \<Longrightarrow>
   handle_body loads content page raw = (out, None) \<Longrightarrow>
   printout (search_adobe_stock loads client_get query page ai_only raw) =
     [Txt ''Searching for: '', Txt query, Txt '' (Page '', Num page, Txt '')...''] # out"
  by (simp add: search_adobe_stock_def)

text \<open>
  C6. When the marker does not occur in the body of a successful response,
  \<^verbatim>\<open>find\<close> returns \<open>-1\<close>, decoding ends with \<open>data\<close> still \<^verbatim>\<open>None\<close> and
  without an exception, and the invocation prints the notice and the first 3000
  characters of the body, and nothing else after the first line.
\<close>

theorem marker_absent_preview:
  assumes "\<not> sublist marker content"
    and "client_get (build_url query page ai_only) = Response status content"
    and "is_success status"
  shows "py_find content marker = -1 \<and>
         decode loads content = Inr JNull \<and>
         printout (search_adobe_stock loads client_get query page ai_only raw) =
           [[Txt ''Searching for: '', Txt query, Txt '' (Page '', Num page, Txt '')...''],
            [Txt ''Could not find image data in the response. The RSC format might have changed.''],
            [Txt (CHR 0x0A # ''Response Preview (first 3000 chars):'')],
            [Txt (take 3000 content)]]"
proof (intro conjI)
  show "py_find content marker = -1" by (rule py_find_absent [OF assms(1)])
  show "decode loads content = Inr JNull"
    by (simp add: decode_def extract_absent [OF assms(1)])
  have "handle_body loads content page raw = (preview content, None)"
    by (rule handle_body_no_span [OF extract_absent [OF assms(1)]])
  from search_success [where client_get = client_get, OF assms(2,3) this] show "printout (search_adobe_stock loads client_get query page ai_only raw) =
           [[Txt ''Searching for: '', Txt query, Txt '' (Page '', Num page, Txt '')...''],
            [Txt ''Could not find image data in the response. The RSC format might have changed.''],
            [Txt (CHR 0x0A # ''Response Preview (first 3000 chars):'')],
            [Txt (take 3000 content)]]"
    by (simp add: preview_def)
qed

text \<open>The theorem at a body without the marker.\<close>

theorem marker_absent_preview_witness:
  "printout (search_adobe_stock (\<lambda>s. None) (\<lambda>u. Response 200 ''0:[] no payload here'') ''cats'' 1 False False) =
     [[Txt ''Searching for: '', Txt ''cats'', Txt '' (Page '', Num 1, Txt '')...''],
      [Txt ''Could not find image data in the response. The RSC format might have changed.''],
      [Txt (CHR 0x0A # ''Response Preview (first 3000 chars):'')],
      [Txt ''0:[] no payload here'']]"
proof -
  have a: "\<not> sublist marker ''0:[] no payload here''"
    by (simp add: marker_def dq_def sublist_code)
  have b: "(\<lambda>u. Response 200 ''0:[] no payload here'') (build_url ''cats'' 1 False) = Response 200 ''0:[] no payload here''"
    by simp
  have c: "is_success 200" by (simp add: is_success_def)
  from marker_absent_preview [where client_get = "\<lambda>u. Response 200 ''0:[] no payload here''" and loads = "\<lambda>s. None" and raw = False, OF a b c]
  show ?thesis by simp
qed

lemma scan_unclosed:
  assumes "\<forall>n\<in>{1..length (marker @ rest)}. brace_depth (take n (marker @ rest)) \<noteq> 0"
  shows "scan_braces (marker @ rest) 0 i = None"
proof -
  define cs where "cs = tl marker @ rest"
  have m: "marker @ rest = CHR ''{'' # cs" by (simp add: cs_def marker_def)
  have "\<forall>n\<le>length cs. 1 + brace_depth (take n cs) \<noteq> 0"
  proof (intro allI impI)
    fix n assume "n \<le> length cs"
    then have "Suc n \<in> {1..length (marker @ rest)}" by (simp add: m)
    with assms have "brace_depth (take (Suc n) (marker @ rest)) \<noteq> 0" by blast
    then show "1 + brace_depth (take n cs) \<noteq> 0" by (simp add: m)
  qed
  then have "scan_braces cs 1 (Suc i) = None" by (intro scan_braces_open) simp_all
  then show ?thesis by (simp add: m)
qed

lemma extract_unclosed:
  assumes "content = pre @ marker @ rest" and "\<not> sublist marker pre"
    and "\<forall>n\<in>{1..length (marker @ rest)}. brace_depth (take n (marker @ rest)) \<noteq> 0"
  shows "extract_json_str content = None"
proof -
  have "py_find (pre @ (marker @ rest) @ []) marker = int (length pre)"
    by (rule py_find_framed [OF _ assms(2)]) simp
  then have "py_find content marker = int (length pre)" by (simp add: assms(1))
  moreover have "scan_braces (drop (length pre) content) 0 (length pre) = None"
    using scan_unclosed [OF assms(3)] by (simp add: assms(1))
  ultimately show ?thesis by (simp add: extract_json_str_def)
qed

text \<open>
  C9. When the marker occurs, first at the end of \<open>pre\<close>, and the brace depth counted
  from the marker is not zero after any character up to the end of the body, the loop
  runs to the end without breaking, nothing is parsed, no exception is raised, and the
  invocation prints exactly what it prints when the marker is absent: the notice and the
  first 3000 characters of the body.
\<close>

theorem unclosed_object_preview:
  assumes "content = pre @ marker @ rest" and "\<not> sublist marker pre"
    and "\<forall>n\<in>{1..length (marker @ rest)}. brace_depth (take n (marker @ rest)) \<noteq> 0"
    and "client_get (build_url query page ai_only) = Response status content"
    and "is_success status"
  shows "py_find content marker = int (length pre) \<and>
         scan_braces (drop (length pre) content) 0 (length pre) = None \<and>
         decode loads content = Inr JNull \<and>
         printout (search_adobe_stock loads client_get query page ai_only raw) =
           [[Txt ''Searching for: '', Txt query, Txt '' (Page '', Num page, Txt '')...''],
            [Txt ''Could not find image data in the response. The RSC format might have changed.''],
            [Txt (CHR 0x0A # ''Response Preview (first 3000 chars):'')],
            [Txt (take 3000 content)]]"
proof (intro conjI)
  have "py_find (pre @ (marker @ rest) @ []) marker = int (length pre)"
    by (rule py_find_framed [OF _ assms(2)]) simp
  then show "py_find content marker = int (length pre)" by (simp add: assms(1))
  show "scan_braces (drop (length pre) content) 0 (length pre) = None"
    using scan_unclosed [OF assms(3)] by (simp add: assms(1))
  have e: "extract_json_str content = None" by (rule extract_unclosed [OF assms(1,2,3)])
  then show "decode loads content = Inr JNull" by (simp add: decode_def)
  from search_success [where client_get = client_get, OF assms(4,5) handle_body_no_span [OF e]]
  show "printout (search_adobe_stock loads client_get query page ai_only raw) =
           [[Txt ''Searching for: '', Txt query, Txt '' (Page '', Num page, Txt '')...''],
            [Txt ''Could not find image data in the response. The RSC format might have changed.''],
            [Txt (CHR 0x0A # ''Response Preview (first 3000 chars):'')],
            [Txt (take 3000 content)]]"
    by (simp add: preview_def)
qed

text \<open>The theorem at a body whose object is never closed.\<close>

theorem unclosed_object_preview_witness:
  "printout (search_adobe_stock (\<lambda>s. Some (JObj [])) (\<lambda>u. Response 200 (''1:'' @ marker @ ''a{}'')) ''cats'' 1 False False) =
     [[Txt ''Searching for: '', Txt ''cats'', Txt '' (Page '', Num 1, Txt '')...''],
      [Txt ''Could not find image data in the response. The RSC format might have changed.''],
      [Txt (CHR 0x0A # ''Response Preview (first 3000 chars):'')],
      [Txt (take 3000 (''1:'' @ marker @ ''a{}''))]]"
proof -
  have a: "''1:'' @ marker @ ''a{}'' = ''1:'' @ marker @ ''a{}''" by simp
  have b: "\<not> sublist marker ''1:''" by (simp add: marker_def dq_def sublist_code)
  have c: "\<forall>n\<in>{1..length (marker @ ''a{}'')}. brace_depth (take n (marker @ ''a{}'')) \<noteq> 0"
    by (simp add: marker_def dq_def atLeastAtMost_upt)
  have d: "(\<lambda>u. Response 200 (''1:'' @ marker @ ''a{}'')) (build_url ''cats'' 1 False) = Response 200 (''1:'' @ marker @ ''a{}'')"
    by simp
  have e: "is_success 200" by (simp add: is_success_def)
  from unclosed_object_preview [where client_get = "\<lambda>u. Response 200 (''1:'' @ marker @ ''a{}'')" and loads = "\<lambda>s. Some (JObj [])" and raw = False, OF a b c d e]
  show ?thesis by blast
qed

section \<open>The report on a status outside 2xx\<close>

text \<open>
  C7. When the status of the response is outside 200 to 299, the invocation makes its one
  request, prints the status code and the first 1000 characters of the response body,
  and does nothing more: the body is not decoded and no second request is made.
\<close>

theorem http_status_error_report:
  assumes "client_get (build_url query page ai_only) = Response status text"
    and "status < 200 \<or> 299 < status"
  shows "search_adobe_stock loads client_get query page ai_only raw =
           \<lparr>requests = [build_url query page ai_only],
            printout =
              [[Txt ''Searching for: '', Txt query, Txt '' (Page '', Num page, Txt '')...''],
               [Txt ''HTTP Error: '', Num status],
               [Txt ''Response: '', Txt (take 1000 text)]]\<rparr>"
  using assms by (auto simp: search_adobe_stock_def is_success_def)

text \<open>The theorem at a response with status 403.\<close>

theorem http_status_error_report_witness:
  "search_adobe_stock (\<lambda>s. None) (\<lambda>u. Response 403 ''Forbidden'') ''cats'' 2 True False =
     \<lparr>requests = [build_url ''cats'' 2 True],
      printout =
        [[Txt ''Searching for: '', Txt ''cats'', Txt '' (Page '', Num 2, Txt '')...''],
         [Txt ''HTTP Error: '', Num 403],
         [Txt ''Response: '', Txt ''Forbidden'']]\<rparr>"
proof -
  have a: "(\<lambda>u. Response 403 ''Forbidden'') (build_url ''cats'' 2 True) = Response 403 ''Forbidden''"
    by simp
  have b: "(403::int) < 200 \<or> 299 < (403::int)" by simp
  from http_status_error_report [where client_get = "\<lambda>u. Response 403 ''Forbidden''" and loads = "\<lambda>s. None" and raw = False, OF a b]
  show ?thesis by simp
qed

section \<open>Properties of the date formatting\<close>

lemma is_digit_digit_char: "is_digit (digit_char n)"
proof -
  define k where "k = nat (n mod 10)"
  have "k < 10" by (simp add: k_def)
  then have "k = 0 \<or> k = 1 \<or> k = 2 \<or> k = 3 \<or> k = 4 \<or> k = 5 \<or> k = 6 \<or> k = 7 \<or> k = 8 \<or> k = 9"
    by arith
  then have "is_digit (''0123456789'' ! k)" unfolding is_digit_def by auto
  then show ?thesis by (simp add: digit_char_def k_def)
qed



















text \<open>
  C10. For the empty string, and for every other value that is false in Python's sense,
  \<^verbatim>\<open>format_date\<close> returns the text \<open>N/A\<close>, not its argument.
\<close>

theorem format_date_falsy:
  "(\<not> truthy date_str \<longrightarrow> format_date date_str = JStr ''N/A'') \<and>
   format_date (JStr []) = JStr ''N/A''"
  by (simp add: format_date_def)

text \<open>The theorem at Python's \<^verbatim>\<open>None\<close>.\<close>

theorem format_date_falsy_witness:
  "\<not> truthy JNull \<and> format_date JNull = JStr ''N/A''"
  using format_date_falsy [of JNull] by simp




section \<open>Properties of the keyword normalization\<close>

lemma last_dropWhile: "dropWhile P xs \<noteq> [] \<Longrightarrow> last (dropWhile P xs) = last xs"
  by (metis last_appendR takeWhile_dropWhile_id)

lemma py_strip_trimmed:
  assumes "py_strip s \<noteq> []"
  shows "\<not> is_space (hd (py_strip s)) \<and> \<not> is_space (last (py_strip s))"
proof -
  define a where "a = dropWhile is_space s"
  define b where "b = dropWhile is_space (rev a)"
  have s: "py_strip s = rev b" by (simp add: py_strip_def a_def b_def)
  with assms have b: "b \<noteq> []" by simp
  then have a: "a \<noteq> []" by (auto simp: b_def)
  have "last (rev b) = hd b" using b by (simp add: last_rev)
  moreover have "\<not> is_space (hd b)" using b unfolding b_def by (rule hd_dropWhile)
  moreover have "hd (rev b) = last b" using b by (simp add: hd_rev)
  moreover have "last b = last (rev a)" using b unfolding b_def by (rule last_dropWhile)
  moreover have "last (rev a) = hd a" using a by (simp add: last_rev)
  moreover have "\<not> is_space (hd a)" using a unfolding a_def by (rule hd_dropWhile)
  ultimately show ?thesis by (simp add: s)
qed

lemma set_py_strip: "set (py_strip s) \<subseteq> set s"
  unfolding py_strip_def by (auto dest!: set_dropWhileD)

lemma split_on_nonempty: "split_on sep s \<noteq> []"
  by (induction s) (auto split: list.splits)

lemma join_sep_Cons:
  "join_sep sep (x # xs) = (if xs = [] then x else x @ sep @ join_sep sep xs)"
  by (cases xs) simp_all

lemma join_split_on: "join_sep [sep] (split_on sep s) = s"
proof (induction s)
  case Nil
  then show ?case by simp
next
  case (Cons c cs)
  show ?case
  proof (cases "c = sep")
    case True
    then show ?thesis using Cons split_on_nonempty [of sep cs] by (simp add: join_sep_Cons)
  next
    case False
    obtain p ps where ps: "split_on sep cs = p # ps"
      using split_on_nonempty [of sep cs] by (cases "split_on sep cs") auto
    with False Cons show ?thesis by (auto simp: join_sep_Cons split: if_splits)
  qed
qed

lemma split_on_no_sep: "p \<in> set (split_on sep s) \<Longrightarrow> sep \<notin> set p"
proof (induction s arbitrary: p)
  case Nil
  then show ?case by simp
next
  case (Cons c cs)
  then show ?case by (auto split: if_splits list.splits)
qed

lemma kw_split_alt:
  "kw_split s = filter (\<lambda>k. k \<noteq> []) (map py_strip (split_on CHR '','' s))"
  by (simp add: kw_split_def filter_map comp_def)

lemma kw_split_entries:
  assumes "k \<in> set (kw_split s)"
  shows "k \<noteq> [] \<and> \<not> is_space (hd k) \<and> \<not> is_space (last k) \<and> CHR '','' \<notin> set k"
proof -
  from assms obtain p where p: "p \<in> set (split_on CHR '','' s)" and k: "k = py_strip p"
    and ne: "py_strip p \<noteq> []"
    by (auto simp: kw_split_def)
  have "CHR '','' \<notin> set p" using p by (rule split_on_no_sep)
  then have "CHR '','' \<notin> set k" using set_py_strip [of p] k by blast
  with py_strip_trimmed [OF ne] ne show ?thesis by (simp add: k)
qed

lemma str_items_map: "str_items (map JStr xs) = Some xs"
  by (induction xs) simp_all

lemma str_items_take: "str_items (take n (map JStr xs)) = Some (take n xs)"
  by (simp add: take_map str_items_map)

lemma print_keywords_strs:
  assumes "xs \<noteq> []"
  shows "print_keywords (JArr (map JStr xs)) =
          ([[Txt ''  Keywords:     '', Txt (join_sep '', '' (take 20 xs))],
            [Txt ''  KW Count:     '', Num (int (length xs))]], None)"
  using assms
  by (simp add: print_keywords_def kw_list_of_def kw_display_def py_len_def
      str_items_take)

text \<open>
  C2, as amended. The string \<open>a, b ,c\<close> yields exactly \<open>a\<close>, \<open>b\<close>, \<open>c\<close>. For a
  keywords input that is a string, the normalized sequence is made of the pieces between
  the commas, in their order, each trimmed, without those that are empty once trimmed:
  every entry is non-empty, begins and ends with a character that is not white space, and
  holds no comma. For an input that is already a sequence of strings, the sequence is
  taken as it is. In both cases, when the input is not empty, the display joins the first
  20 entries and the count is the length of the whole sequence.
\<close>

theorem keywords_normalized:
  "kw_split ''a, b ,c'' = [''a'', ''b'', ''c''] \<and>
   join_sep '','' (split_on CHR '','' s) = s \<and>
   kw_split s = filter (\<lambda>k. k \<noteq> []) (map py_strip (split_on CHR '','' s)) \<and>
   (\<forall>k\<in>set (kw_split s).
      k \<noteq> [] \<and> \<not> is_space (hd k) \<and> \<not> is_space (last k) \<and> CHR '','' \<notin> set k) \<and>
   kw_list_of (JStr s) = JArr (map JStr (kw_split s)) \<and>
   (s \<noteq> [] \<longrightarrow>
      print_keywords (JStr s) =
        ([[Txt ''  Keywords:     '', Txt (join_sep '', '' (take 20 (kw_split s)))],
          [Txt ''  KW Count:     '', Num (int (length (kw_split s)))]], None)) \<and>
   kw_list_of (JArr (map JStr xs)) = JArr (map JStr xs) \<and>
   (xs \<noteq> [] \<longrightarrow>
      print_keywords (JArr (map JStr xs)) =
        ([[Txt ''  Keywords:     '', Txt (join_sep '', '' (take 20 xs))],
          [Txt ''  KW Count:     '', Num (int (length xs))]], None))"
proof -
  have 1: "kw_split ''a, b ,c'' = [''a'', ''b'', ''c'']"
    by (simp add: kw_split_def py_strip_def is_space_def)
  have 2: "join_sep '','' (split_on CHR '','' s) = s" by (rule join_split_on)
  have 3: "kw_split s = filter (\<lambda>k. k \<noteq> []) (map py_strip (split_on CHR '','' s))"
    by (rule kw_split_alt)
  have 4: "\<forall>k\<in>set (kw_split s).
      k \<noteq> [] \<and> \<not> is_space (hd k) \<and> \<not> is_space (last k) \<and> CHR '','' \<notin> set k"
    using kw_split_entries by blast
  have 5: "kw_list_of (JStr s) = JArr (map JStr (kw_split s))" by (simp add: kw_list_of_def)
  have 6: "print_keywords (JStr s) =
        ([[Txt ''  Keywords:     '', Txt (join_sep '', '' (take 20 (kw_split s)))],
          [Txt ''  KW Count:     '', Num (int (length (kw_split s)))]], None)" if "s \<noteq> []"
    using that
    by (simp add: print_keywords_def kw_list_of_def kw_display_def py_len_def str_items_take)
  have 7: "kw_list_of (JArr (map JStr xs)) = JArr (map JStr xs)" by (simp add: kw_list_of_def)
  have 8: "print_keywords (JArr (map JStr xs)) =
        ([[Txt ''  Keywords:     '', Txt (join_sep '', '' (take 20 xs))],
          [Txt ''  KW Count:     '', Num (int (length xs))]], None)" if "xs \<noteq> []"
    using that by (rule print_keywords_strs)
  from 1 2 3 4 5 6 7 8 show ?thesis by blast
qed

text \<open>The theorem at a string with padded and empty pieces, and at a list of two strings.\<close>

theorem keywords_normalized_witness:
  "print_keywords (JStr '' sky , ,blue sea,'') =
     ([[Txt ''  Keywords:     '', Txt ''sky, blue sea''], [Txt ''  KW Count:     '', Num 2]], None) \<and>
   print_keywords (JArr (map JStr [''sky'', ''sea''])) =
     ([[Txt ''  Keywords:     '', Txt ''sky, sea''], [Txt ''  KW Count:     '', Num 2]], None)"
proof -
  have k: "kw_split '' sky , ,blue sea,'' = [''sky'', ''blue sea'']"
    by (simp add: kw_split_def py_strip_def is_space_def)
  have a: "'' sky , ,blue sea,'' \<noteq> []" by simp
  have b: "[''sky'', ''sea''] \<noteq> []" by simp
  from keywords_normalized [of "'' sky , ,blue sea,''" "[''sky'', ''sea'']"] a b
  show ?thesis by (simp add: k)
qed

text \<open>
  C2 as stated fails for a sequence: its entries are neither trimmed nor filtered, so a
  padded entry and an empty entry are kept, shown and counted.
\<close>

theorem keywords_sequence_counterexample:
  "kw_list_of (JArr [JStr '' sky '', JStr []]) = JArr [JStr '' sky '', JStr []] \<and>
   is_space (hd '' sky '') \<and>
   print_keywords (JArr [JStr '' sky '', JStr []]) =
     ([[Txt ''  Keywords:     '', Txt '' sky , ''], [Txt ''  KW Count:     '', Num 2]], None)"
  by (simp add: kw_list_of_def is_space_def print_keywords_def kw_display_def py_len_def)

section \<open>Properties of the request URL\<close>

lemma amp_skip:
  "CHR ''&'' \<notin> set u \<Longrightarrow> sublist (CHR ''&'' # r) (u @ v) \<longleftrightarrow> sublist (CHR ''&'' # r) v"
proof (induction u)
  case Nil
  then show ?case by simp
next
  case (Cons c u)
  then show ?case by (auto simp: sublist_Cons_right)
qed

lemma hex_digit_safe: "always_safe (hex_digit n)"
proof -
  define k where "k = n mod 16"
  have "k < 16" by (simp add: k_def)
  then have "k = 0 \<or> k = 1 \<or> k = 2 \<or> k = 3 \<or> k = 4 \<or> k = 5 \<or> k = 6 \<or> k = 7 \<or> k = 8 \<or> k = 9 \<or>
      k = 10 \<or> k = 11 \<or> k = 12 \<or> k = 13 \<or> k = 14 \<or> k = 15"
    by arith
  then have "always_safe (''0123456789ABCDEF'' ! k)" unfolding always_safe_def by auto
  then show ?thesis by (simp add: hex_digit_def k_def)
qed

lemma quote_char_chars: "c' \<in> set (quote_char c) \<Longrightarrow> url_char c'"
  by (auto simp: quote_char_def url_char_def percent_def utf8_def Let_def hex_digit_safe
      split: if_splits)

lemma quote_plus_chars: "c \<in> set (quote_plus s) \<Longrightarrow> url_char c"
  by (auto simp: quote_plus_def quote_char_chars)

lemma url_char_not_amp: "url_char c \<Longrightarrow> c \<noteq> CHR ''&''"
  by (auto simp: url_char_def always_safe_def)

lemma quote_plus_no_amp: "CHR ''&'' \<notin> set (quote_plus s)"
  using quote_plus_chars url_char_not_amp by blast

lemma digit_char_not_amp: "CHR ''&'' \<noteq> digit_char n"
  using is_digit_digit_char [of n] by (auto simp: is_digit_def)

lemma show_nat_no_amp: "CHR ''&'' \<notin> set (show_nat n)"
proof (induction n rule: show_nat.induct)
  case (1 n)
  show ?case
  proof (cases "n < 10")
    case True
    then show ?thesis by (subst show_nat.simps) (simp add: digit_char_not_amp)
  next
    case False
    with 1 show ?thesis by (subst show_nat.simps) (simp add: digit_char_not_amp)
  qed
qed

lemma show_int_no_amp: "0 \<le> i \<Longrightarrow> CHR ''&'' \<notin> set (show_int i)"
  by (simp add: show_int_def show_nat_no_amp)

lemma url_params:
  "sublist (CHR ''&'' # r) (build_url query page ai_only) \<longleftrightarrow>
   sublist (CHR ''&'' # r)
     ((if ai_only then ''&generative_ai=only'' else []) @
      (if page > 1 then ''&page='' @ show_int page else []) @ ''&_rsc=1gn38'')"
proof -
  have "CHR ''&'' \<notin> set (''https://trackadobestock.com/search?q='' @ quote_plus query)"
    by (simp add: quote_plus_no_amp)
  from amp_skip [OF this] show ?thesis by (simp add: build_url_def)
qed

lemma ai_param: "sublist ''&generative_ai=only'' (build_url query page ai_only) \<longleftrightarrow> ai_only"
proof (cases ai_only)
  case True
  have "sublist ''&generative_ai=only''
      ([] @ ''&generative_ai=only'' @
       ((if page > 1 then ''&page='' @ show_int page else []) @ ''&_rsc=1gn38''))"
    by (rule sublist_appendI)
  with True show ?thesis by (subst url_params) simp
next
  case False
  have "\<not> sublist ''&generative_ai=only'' (''&page='' @ show_int page @ ''&_rsc=1gn38'')"
    if "1 < page"
  proof -
    have "CHR ''&'' \<notin> set (''page='' @ show_int page)" using that by (simp add: show_int_no_amp)
    from amp_skip [OF this, of "''generative_ai=only''" "''&_rsc=1gn38''"]
    show ?thesis by (simp add: sublist_Cons_right sublist_code)
  qed
  moreover have "\<not> sublist ''&generative_ai=only'' ''&_rsc=1gn38''"
    by (simp add: sublist_code)
  ultimately show ?thesis using False by (subst url_params) auto
qed

lemma page_param: "sublist ''&page='' (build_url query page ai_only) \<longleftrightarrow> 1 < page"
proof (cases "1 < page")
  case True
  have "sublist ''&page='' ((if ai_only then ''&generative_ai=only'' else []) @
      ''&page='' @ (show_int page @ ''&_rsc=1gn38''))"
    by (rule sublist_appendI)
  with True show ?thesis by (subst url_params) simp
next
  case False
  have "\<not> sublist ''&page='' ''&generative_ai=only&_rsc=1gn38''" by (simp add: sublist_code)
  moreover have "\<not> sublist ''&page='' ''&_rsc=1gn38''" by (simp add: sublist_code)
  ultimately show ?thesis using False by (subst url_params) auto
qed

lemma page_value: "1 < page \<Longrightarrow> sublist (''&page='' @ show_int page) (build_url query page ai_only)"
proof -
  assume "1 < page"
  then have "build_url query page ai_only =
     (''https://trackadobestock.com/search?q='' @ quote_plus query @
     (if ai_only then ''&generative_ai=only'' else [])) @ (''&page='' @ show_int page) @
     ''&_rsc=1gn38''"
    by (simp add: build_url_def)
  then show ?thesis by (metis sublist_appendI)
qed

text \<open>
  C5. The URL is a function of the query, the page and the flag. It begins with the
  search address and the encoded query, which is made of URL-safe characters only; it
  contains the AI-only parameter exactly when the flag is set; it contains a page
  parameter exactly when the page is greater than 1, and then with the page number; and
  it ends with the fixed parameter \<open>&_rsc=1gn38\<close>.
\<close>

theorem build_url_parameters:
  "prefix (''https://trackadobestock.com/search?q='' @ quote_plus query)
     (build_url query page ai_only) \<and>
   (\<forall>c\<in>set (quote_plus query). url_char c) \<and>
   (sublist ''&generative_ai=only'' (build_url query page ai_only) \<longleftrightarrow> ai_only) \<and>
   (sublist ''&page='' (build_url query page ai_only) \<longleftrightarrow> 1 < page) \<and>
   (1 < page \<longrightarrow> sublist (''&page='' @ show_int page) (build_url query page ai_only)) \<and>
   suffix ''&_rsc=1gn38'' (build_url query page ai_only)"
proof -
  have 1: "prefix (''https://trackadobestock.com/search?q='' @ quote_plus query)
     (build_url query page ai_only)"
    by (simp add: build_url_def)
  have 2: "\<forall>c\<in>set (quote_plus query). url_char c" using quote_plus_chars by blast
  have 3: "suffix ''&_rsc=1gn38'' (build_url query page ai_only)"
    unfolding build_url_def suffix_def by (metis append.assoc)
  from 1 2 3 ai_param page_param page_value show ?thesis by blast
qed

text \<open>The theorem at page 3 with the flag set, and at page 1 without it.\<close>

theorem build_url_parameters_witness:
  "build_url ''red fox&cub'' 3 True =
     ''https://trackadobestock.com/search?q=red+fox%26cub&generative_ai=only&page=3&_rsc=1gn38'' \<and>
   sublist ''&generative_ai=only'' (build_url ''red fox&cub'' 3 True) \<and>
   sublist ''&page=3'' (build_url ''red fox&cub'' 3 True) \<and>
   \<not> sublist ''&page='' (build_url ''red fox'' 1 False) \<and>
   \<not> sublist ''&generative_ai=only'' (build_url ''red fox'' 1 False)"
proof -
  have s: "show_int 3 = ''3''"
    by (simp add: show_int_def show_nat.simps digit_char_def)
  have u: "build_url ''red fox&cub'' 3 True =
     ''https://trackadobestock.com/search?q=red+fox%26cub&generative_ai=only&page=3&_rsc=1gn38''"
    by (simp add: build_url_def quote_plus_def quote_char_def always_safe_def utf8_def
        percent_def hex_digit_def s)
  from build_url_parameters [of "''red fox&cub''" 3 True]
    build_url_parameters [of "''red fox''" 1 False] u s
  show ?thesis by simp
qed

section \<open>Properties of the result records\<close>

lemma str_items_Some: "str_items xs = Some ss \<Longrightarrow> xs = map JStr ss"
proof (induction xs arbitrary: ss)
  case Nil
  then show ?case by simp
next
  case (Cons x xs)
  then show ?case by (cases x) auto
qed

lemma print_keywords_typed:
  assumes "\<not> truthy kw \<or> keywords_typed kw"
  shows "snd (print_keywords kw) = None"
proof (cases "truthy kw")
  case False
  then show ?thesis by (simp add: print_keywords_def)
next
  case True
  with assms have t: "keywords_typed kw" by simp
  show ?thesis
  proof (cases kw)
    case (JStr s)
    with True show ?thesis
      by (simp add: print_keywords_def kw_list_of_def kw_display_def py_len_def str_items_take)
  next
    case (JArr xs)
    with t obtain ss where "str_items xs = Some ss" by auto
    then have "xs = map JStr ss" by (rule str_items_Some)
    with True JArr show ?thesis
      by (simp add: print_keywords_def kw_list_of_def kw_display_def py_len_def str_items_take)
  qed (use t in simp_all)
qed

lemma process_image_snd:
  "snd (process_image idx (JObj f)) = snd (print_keywords (dget f ''keywords'' (JStr [])))"
  by (simp add: process_image_def Let_def split: prod.splits option.splits)

lemma process_image_ok: "image_ok img \<Longrightarrow> snd (process_image idx img) = None"
proof (cases img)
  case (JObj f)
  assume "image_ok img"
  with JObj show ?thesis
    by (simp add: process_image_snd print_keywords_typed Let_def)
qed simp_all


lemma header_of_simps:
  "header_of [Txt ''  #'', Num i, Txt b, Val t, Txt c] = Some (i, t)"
  "hd l \<noteq> Txt ''  #'' \<Longrightarrow> header_of l = None"
  "length l \<noteq> 5 \<Longrightarrow> header_of l = None"
  by (simp_all add: header_of_def)

lemma shown_records_append: "shown_records (xs @ ys) = shown_records xs @ shown_records ys"
  by (induction xs) (simp_all split: option.splits)

lemma shown_records_none: "\<forall>l\<in>set ls. header_of l = None \<Longrightarrow> shown_records ls = []"
  by (induction ls) simp_all

lemma print_keywords_lines: "l \<in> set (fst (print_keywords kw)) \<Longrightarrow> header_of l = None"
  by (auto simp: print_keywords_def Let_def header_of_def split: if_splits sum.splits)

lemma shown_records_image:
  "shown_records (fst (process_image idx (JObj f))) =
     [(int idx, dget f ''title'' (JStr ''N/A''))]"
proof -
  obtain kw r where pk: "print_keywords (dget f ''keywords'' (JStr [])) = (kw, r)"
    by (cases "print_keywords (dget f ''keywords'' (JStr []))") auto
  have "\<forall>l\<in>set kw. header_of l = None"
    using print_keywords_lines [of _ "dget f ''keywords'' (JStr [])"] by (simp add: pk)
  then have k: "shown_records kw = []" by (rule shown_records_none)
  show ?thesis
    by (cases r)
      (simp_all add: process_image_def Let_def rule60_def shown_records_append k pk
        header_of_simps)
qed

lemma raw_dump_lines:
  "shown_records (fst (raw_dump entries images)) = []"
  by (simp add: raw_dump_def Let_def rule60_def header_of_simps split: sum.splits)

lemma image_loop_shown_prefix:
  "prefix (shown_records (fst (image_loop idx imgs)))
     (zip (map int [idx..<idx + length imgs]) (map title_of imgs))"
proof (induction imgs arbitrary: idx)
  case Nil
  then show ?case by simp
next
  case (Cons img imgs)
  have c: "[idx..<idx + length (img # imgs)] = idx # [Suc idx..<Suc idx + length imgs]"
    by (subst upt_rec) simp
  obtain out r where p: "process_image idx img = (out, r)"
    by (cases "process_image idx img") auto
  obtain out' r' where l: "image_loop (Suc idx) imgs = (out', r')"
    by (cases "image_loop (Suc idx) imgs") auto
  show ?case
  proof (cases img)
    case (JObj f)
    have s: "shown_records out = [(int idx, title_of img)]"
      using shown_records_image [of idx f] p by (simp add: JObj title_of_def)
    show ?thesis
      using Cons.IH [of "Suc idx"] unfolding c
      by (cases r) (simp_all add: p l s shown_records_append)
  qed (use p in \<open>auto simp: process_image_def\<close>)
qed

lemma image_loop_shown_all:
  "\<forall>img\<in>set imgs. image_ok img \<Longrightarrow>
   shown_records (fst (image_loop idx imgs)) =
     zip (map int [idx..<idx + length imgs]) (map title_of imgs) \<and>
   snd (image_loop idx imgs) = None"
proof (induction imgs arbitrary: idx)
  case Nil
  then show ?case by simp
next
  case (Cons img imgs)
  have c: "[idx..<idx + length (img # imgs)] = idx # [Suc idx..<Suc idx + length imgs]"
    by (subst upt_rec) simp
  from Cons.prems obtain f where f: "img = JObj f" by (cases img) auto
  have "snd (process_image idx img) = None" using Cons.prems by (simp add: process_image_ok)
  then obtain out where p: "process_image idx img = (out, None)"
    by (cases "process_image idx img") auto
  have s: "shown_records out = [(int idx, title_of img)]"
    using shown_records_image [of idx f] p by (simp add: f title_of_def)
  obtain out' r' where l: "image_loop (Suc idx) imgs = (out', r')"
    by (cases "image_loop (Suc idx) imgs") auto
  have "\<forall>img\<in>set imgs. image_ok img" using Cons.prems by simp
  from Cons.IH [OF this, of "Suc idx"] show ?case
    unfolding c by (simp add: p l s shown_records_append)
qed

lemma present_list:
  assumes "dget entries ''images'' (JArr []) = JArr imgs"
    and "dget entries ''usageData'' (JObj []) = JObj u"
  shows "\<exists>pre. shown_records pre = [] \<and>
           present (JObj entries) page raw =
             (pre @ fst (image_loop 1 imgs), snd (image_loop 1 imgs))"
proof -
  define summary where "summary =
    [Txt ''Page '', Num page, Txt '' '', EmDash, Txt '' Found '',
     Num (int (length imgs)), Txt '' results (Plan: '',
     Val (dget u ''plan'' (JStr ''N/A'')), Txt '', Searches: '',
     Val (dget u ''searchesUsed'' (JStr ''?'')), Txt ''/'',
     Val (dget u ''searchesLimit'' (JStr ''?'')),
     Txt ('')'' @ [CHR 0x0A])]"
  have h: "header_of summary = None" by (simp add: summary_def header_of_def)
  obtain out r where l: "image_loop 1 imgs = (out, r)" by (cases "image_loop 1 imgs") auto
  show ?thesis
  proof (cases "raw \<and> imgs \<noteq> []")
    case False
    then have "present (JObj entries) page raw = ([summary] @ out, r)"
      using assms l by (auto simp: present_def py_len_def py_iter_def summary_def)
    moreover have "shown_records [summary] = []" by (simp add: h)
    ultimately show ?thesis using l by auto
  next
    case True
    then obtain x xs where x: "imgs = x # xs" by (cases imgs) auto
    obtain dump where d: "raw_dump entries (JArr imgs) = (dump, None)"
      by (simp add: raw_dump_def x first_item_def)
    have "shown_records dump = []" using raw_dump_lines [of entries "JArr imgs"] by (simp add: d)
    then have "shown_records (summary # dump) = []" by (simp add: h)
    moreover have "present (JObj entries) page raw = ((summary # dump) @ out, r)"
      using assms True l x d
      by (simp add: present_def py_len_def py_iter_def summary_def)
    ultimately show ?thesis using l by (metis fst_conv snd_conv)
  qed
qed







text \<open>
  C8. For every decoded payload that is a non-empty object whose images are a list and
  whose usage data are a mapping, the records shown are, in order and numbered from 1, an
  initial part of the images of the payload; and when every image is a record of the
  data model, they are all of them, each shown once, in the order of the payload, and no
  exception is raised.
\<close>

theorem images_in_order:
  assumes "decode loads content = Inr (JObj entries)" and "entries \<noteq> []"
    and "dget entries ''images'' (JArr []) = JArr imgs"
    and "dget entries ''usageData'' (JObj []) = JObj u"
  shows "prefix (shown_records (fst (handle_body loads content page raw)))
           (zip (map int [1..<Suc (length imgs)]) (map title_of imgs)) \<and>
         ((\<forall>img\<in>set imgs. image_ok img) \<longrightarrow>
            shown_records (fst (handle_body loads content page raw)) =
              zip (map int [1..<Suc (length imgs)]) (map title_of imgs) \<and>
            snd (handle_body loads content page raw) = None)"
proof -
  have h: "handle_body loads content page raw = present (JObj entries) page raw"
    using assms(1,2) by (simp add: handle_body_def)
  from present_list [OF assms(3,4), of page raw] obtain pre where
    pre: "shown_records pre = []" and
    p: "present (JObj entries) page raw = (pre @ fst (image_loop 1 imgs), snd (image_loop 1 imgs))"
    by blast
  have s: "shown_records (fst (handle_body loads content page raw)) =
      shown_records (fst (image_loop 1 imgs))"
    by (simp add: h p shown_records_append pre)
  have r: "snd (handle_body loads content page raw) = snd (image_loop 1 imgs)"
    by (simp add: h p)
  show ?thesis
    using image_loop_shown_prefix [of 1 imgs] image_loop_shown_all [of imgs 1]
    unfolding s r by simp
qed

text \<open>
  The theorem at a payload of three images whose titles are not in alphabetical order,
  the second without a title.
\<close>

theorem images_in_order_witness:
  "shown_records (fst (handle_body
      (\<lambda>s. Some (JObj [(''query'', JStr ''cats''),
         (''images'', JArr [JObj [(''title'', JStr ''B'')], JObj [],
            JObj [(''title'', JStr ''A''), (''keywords'', JStr ''x, y'')]])]))
      (marker @ ''cats'' @ [dq] @ ''}'') 1 False)) =
     [(1, JStr ''B''), (2, JStr ''N/A''), (3, JStr ''A'')]"
proof -
  define imgs where "imgs = [JObj [(''title'', JStr ''B'')], JObj [],
            JObj [(''title'', JStr ''A''), (''keywords'', JStr ''x, y'')]]"
  define entries where "entries = [(''query'', JStr ''cats''), (''images'', JArr imgs)]"
  have e: "extract_json_str (marker @ ''cats'' @ [dq] @ ''}'') = Some (marker @ ''cats'' @ [dq] @ ''}'')"
    by (simp add: extract_json_str_def py_find_def marker_def dq_def slice_def)
  have a: "decode (\<lambda>s. Some (JObj entries)) (marker @ ''cats'' @ [dq] @ ''}'') = Inr (JObj entries)"
    unfolding decode_def e by simp
  have b: "entries \<noteq> []" by (simp add: entries_def)
  have c: "dget entries ''images'' (JArr []) = JArr imgs" by (simp add: entries_def dget_def)
  have d: "dget entries ''usageData'' (JObj []) = JObj []" by (simp add: entries_def dget_def)
  have ok: "\<forall>img\<in>set imgs. image_ok img" by (simp add: imgs_def dget_def)
  have t: "map title_of imgs = [JStr ''B'', JStr ''N/A'', JStr ''A'']"
    by (simp add: imgs_def title_of_def dget_def)
  have n: "length imgs = 3" by (simp add: imgs_def)
  from images_in_order [OF a b c d, of 1 False] ok
  have "shown_records (fst (handle_body (\<lambda>s. Some (JObj entries)) (marker @ ''cats'' @ [dq] @ ''}'') 1 False)) =
      zip (map int [1..<Suc (length imgs)]) (map title_of imgs)"
    by blast
  then show ?thesis unfolding t n by (simp add: entries_def imgs_def upt_conv_Cons)
qed

end
